theory Spec2Isabelle
  imports Main "HOL-Library.Word"
begin

section \<open>The object cache of pkg/objcache/objcache.go\<close>

text \<open>
  The cache maps string keys to byte buffers with a last-access time. The model is a
  sequential one: every operation takes the cache and returns the updated cache, the
  clock readings of \<open>time.Now()\<close> are arguments, and the iteration order of a Go map
  is an argument of the sweep. The buffer pool (\<open>bytebufferpool\<close>) is outside the
  repository: \<open>Get\<close> hands out an empty buffer, and \<open>Reset\<close>/\<open>Put\<close> act on a
  buffer that the cache no longer refers to, so they leave no trace in the model.
\<close>

subsection \<open>Time\<close>

text \<open>
  An instant is a number of nanoseconds on one clock, a duration is a signed 64-bit
  number of nanoseconds. \<open>Time.Sub\<close> saturates at the ends of the duration range,
  \<open>Time.Before\<close> is the strict order of instants.
\<close>

type_synonym time = int
type_synonym duration = int

definition minDuration :: duration where
  "minDuration = - (2 ^ 63)"

definition maxDuration :: duration where
  "maxDuration = 2 ^ 63 - 1"

definition time_Sub :: "time \<Rightarrow> time \<Rightarrow> duration" where
  "time_Sub t u =
    (let d = t - u in
     if d < minDuration then minDuration
     else if maxDuration < d then maxDuration
     else d)"

definition time_Before :: "time \<Rightarrow> time \<Rightarrow> bool" where
  "time_Before t u = (t < u)"

subsection \<open>Data\<close>

type_synonym byte = "8 word"

text \<open>
  The three package-level errors, and the anonymous error that \<open>New\<close> builds for a
  zero size (\<open>errors.New("invalid maximum cache size")\<close>).
\<close>

datatype error =
    ErrKeyNotFoundInCache
  | ErrCacheFull
  | ErrExcessData
  | ErrInvalidMaximumCacheSize

definition defaultBufferRatio :: "64 word" where
  "defaultBufferRatio = 10"

record buffer =
  buf :: "byte list"
  lastAccessed :: time

text \<open>
  The struct \<open>Cache\<close>. \<open>mutex\<close> is true while the lock is held by the running
  operation. \<open>OnEviction\<close> tells whether the callback field is non-nil; what the
  callback does is outside the cache, so each invocation is recorded in
  \<open>evictionCalls\<close> with the key passed and the state of the mutex at that moment.
  \<open>stopGC\<close> tells whether the stop channel was allocated. \<open>totalEvicted\<close> is a Go
  \<open>int\<close>, 64 bits wide.
\<close>

record Cache =
  mutex :: bool
  maxSize :: "64 word"
  maxCacheEntrySize :: "64 word"
  currentSize :: "64 word"
  OnEviction :: bool
  totalEvicted :: "64 word"
  entries :: "string \<rightharpoonup> buffer"
  expiry :: duration
  stopGC :: bool
  evictionCalls :: "(string \<times> bool) list"

definition Lock :: "Cache \<Rightarrow> Cache" where
  "Lock c = c\<lparr>mutex := True\<rparr>"

definition Unlock :: "Cache \<Rightarrow> Cache" where
  "Unlock c = c\<lparr>mutex := False\<rparr>"

definition call_OnEviction :: "Cache \<Rightarrow> string \<Rightarrow> Cache" where
  "call_OnEviction c key = c\<lparr>evictionCalls := evictionCalls c @ [(key, mutex c)]\<rparr>"

subsection \<open>New\<close>

definition New :: "64 word \<Rightarrow> duration \<Rightarrow> error + Cache" where
  "New maxSize' expiry' =
    (if maxSize' = 0 then Inl ErrInvalidMaximumCacheSize
     else
       let i = maxSize' div defaultBufferRatio;
           i = (if i = 0 then maxSize' else i)
       in Inr \<lparr> mutex = False,
                maxSize = maxSize',
                maxCacheEntrySize = i,
                currentSize = 0,
                OnEviction = False,
                totalEvicted = 0,
                entries = Map.empty,
                expiry = expiry',
                stopGC = (0 < expiry'),
                evictionCalls = [] \<rparr>)"

subsection \<open>delete\<close>

definition delete :: "Cache \<Rightarrow> string \<Rightarrow> Cache" where
  "delete c key =
    (case entries c key of
       None \<Rightarrow> c
     | Some b \<Rightarrow>
         let deletedSize = (of_nat (length (buf b)) :: 64 word)
         in c\<lparr>entries := (entries c)(key := None),
              currentSize := currentSize c - deletedSize,
              totalEvicted := totalEvicted c + 1\<rparr>)"

subsection \<open>Create and the write sink\<close>

text \<open>
  The closure \<open>onClose\<close> of \<open>Create\<close>, with the captured key and buffer as
  arguments; \<open>now\<close> is the reading of \<open>time.Now().UTC()\<close>. The result is the
  returned error (\<open>None\<close> for nil) and the cache.
\<close>

definition onClose :: "Cache \<Rightarrow> string \<Rightarrow> byte list \<Rightarrow> time \<Rightarrow> error option \<times> Cache" where
  "onClose c key b now =
    (let c = Lock c in
     if length b = 0 then (None, Unlock c)
     else if maxCacheEntrySize c < (of_nat (length b) :: 64 word) then (Some ErrCacheFull, Unlock c)
     else
       let c = c\<lparr>entries := (entries c)(key \<mapsto> \<lparr>buf = b, lastAccessed = now\<rparr>)\<rparr>;
           c = c\<lparr>currentSize := currentSize c + of_nat (length b)\<rparr>
       in (None, Unlock c))"

text \<open>
  Modelled from the spec: the type \<open>writeCloser\<close> that \<open>Create\<close> returns, and its
  method \<open>Close\<close>, are declared outside objcache.go. The spec's sink holds the private
  buffer, and its finalize runs the commit closure of \<open>Create\<close>. The key that the
  closure captured is kept in the record; the cache that the closure refers to is the
  cache at the time of closing.
\<close>

record writeCloser =
  ByteBuffer :: "byte list"
  key_of :: string

definition Close :: "writeCloser \<Rightarrow> Cache \<Rightarrow> time \<Rightarrow> error option \<times> Cache" where
  "Close wc c now = onClose c (key_of wc) (ByteBuffer wc) now"

text \<open>
  \<open>Create\<close> takes an empty buffer from the pool and wraps it with the closure; it
  neither locks nor changes the cache.
\<close>

definition Create :: "Cache \<Rightarrow> string \<Rightarrow> writeCloser" where
  "Create c key = \<lparr>ByteBuffer = [], key_of = key\<rparr>"

text \<open>
  \<open>Write\<close> is the method of the pool's \<open>ByteBuffer\<close>, which the sink embeds: it
  appends the bytes and returns their number and no error.
\<close>

definition Write :: "writeCloser \<Rightarrow> byte list \<Rightarrow> (nat \<times> error option) \<times> writeCloser" where
  "Write wc p = ((length p, None), wc\<lparr>ByteBuffer := ByteBuffer wc @ p\<rparr>)"

subsection \<open>Open\<close>

text \<open>
  \<open>atime\<close> is the caller's reference time, \<open>now\<close> the reading of \<open>time.Now()\<close>.
  The reader returned on success is modelled by the bytes it reads.
\<close>

definition Open :: "Cache \<Rightarrow> string \<Rightarrow> time \<Rightarrow> time \<Rightarrow> (error + byte list) \<times> Cache" where
  "Open c key atime now =
    (let c = Lock c in
     case entries c key of
       None \<Rightarrow> (Inl ErrKeyNotFoundInCache, Unlock c)
     | Some b \<Rightarrow>
         if time_Before (lastAccessed b) atime
         then (Inl ErrKeyNotFoundInCache, Unlock (delete c key))
         else
           let c = c\<lparr>entries := (entries c)(key \<mapsto> b\<lparr>lastAccessed := now\<rparr>)\<rparr>
           in (Inr (buf b), Unlock c))"

subsection \<open>Delete\<close>

definition Delete :: "Cache \<Rightarrow> string \<Rightarrow> Cache" where
  "Delete c key =
    (let c = Lock c;
         c = delete c key;
         c = Unlock c
     in if OnEviction c then call_OnEviction c key else c)"

subsection \<open>gc\<close>

text \<open>
  The first loop of \<open>gc\<close>. A Go map is ranged over in an unspecified order and the
  clock is read once per entry, so the loop takes the keys it visits, in order, each
  with the clock reading of its visit. A key that is no longer in the map is not
  produced by the range. The result is the cache and \<open>evictedEntries\<close>.
\<close>

fun gc_loop :: "(string \<times> time) list \<Rightarrow> Cache \<Rightarrow> string list \<Rightarrow> Cache \<times> string list" where
  "gc_loop [] c evictedEntries = (c, evictedEntries)"
| "gc_loop ((k, now) # rest) c evictedEntries =
    (case entries c k of
       None \<Rightarrow> gc_loop rest c evictedEntries
     | Some v \<Rightarrow>
         if 0 < expiry c \<and> expiry c < time_Sub now (lastAccessed v)
         then gc_loop rest (delete c k) (evictedEntries @ [k])
         else gc_loop rest c evictedEntries)"

fun gc_notify :: "string list \<Rightarrow> Cache \<Rightarrow> Cache" where
  "gc_notify [] c = c"
| "gc_notify (k # ks) c = gc_notify ks (if OnEviction c then call_OnEviction c k else c)"

definition gc :: "Cache \<Rightarrow> (string \<times> time) list \<Rightarrow> Cache" where
  "gc c visits =
    (let c = Lock c;
         (c, evictedEntries) = gc_loop visits c [];
         c = Unlock c
     in gc_notify evictedEntries c)"

subsection \<open>Measures used in the statements\<close>

text \<open>
  \<open>expired c k now\<close> is the test of the sweep on the entry under \<open>k\<close> when the
  clock reads \<open>now\<close>; \<open>evicted c visits\<close> lists, in visiting order, the keys whose
  entry passes that test in the cache as it is before the sweep. \<open>entrySize\<close> is the
  byte length of the entry under a key and \<open>storedSize\<close> the sum of the byte lengths
  of all stored entries.
\<close>

definition expired :: "Cache \<Rightarrow> string \<Rightarrow> time \<Rightarrow> bool" where
  "expired c k now =
    (case entries c k of
       None \<Rightarrow> False
     | Some v \<Rightarrow> 0 < expiry c \<and> expiry c < time_Sub now (lastAccessed v))"

definition evicted :: "Cache \<Rightarrow> (string \<times> time) list \<Rightarrow> string list" where
  "evicted c visits = map fst (filter (\<lambda>(k, now). expired c k now) visits)"

definition entrySize :: "Cache \<Rightarrow> string \<Rightarrow> nat" where
  "entrySize c k = (case entries c k of None \<Rightarrow> 0 | Some v \<Rightarrow> length (buf v))"

definition storedSize :: "Cache \<Rightarrow> nat" where
  "storedSize c = (\<Sum>k \<in> dom (entries c). entrySize c k)"

text \<open>
  \<open>accounted c\<close>: finitely many entries are stored and \<open>currentSize\<close> is the sum of
  their byte lengths, as a 64-bit value.
\<close>

definition accounted :: "Cache \<Rightarrow> bool" where
  "accounted c = (finite (dom (entries c)) \<and> currentSize c = of_nat (storedSize c))"

text \<open>
  Sequences of operations on one cache: a commit (create, write, close), a read, an
  explicit delete and a sweep; \<open>run\<close> performs them in order. \<open>replaces c x\<close> holds
  when \<open>x\<close> is a commit under a key that is stored in \<open>c\<close>, and \<open>replacing c ops\<close>
  when some operation of the run meets that condition in the cache it starts from.
\<close>

datatype operation =
    Commit string "byte list" time
  | Read string time time
  | Remove string
  | Sweep "(string \<times> time) list"

fun perform :: "Cache \<Rightarrow> operation \<Rightarrow> Cache" where
  "perform c (Commit k p now) = snd (Close (snd (Write (Create c k) p)) c now)"
| "perform c (Read k atime now) = snd (Open c k atime now)"
| "perform c (Remove k) = Delete c k"
| "perform c (Sweep visits) = gc c visits"

fun run :: "Cache \<Rightarrow> operation list \<Rightarrow> Cache" where
  "run c [] = c"
| "run c (x # xs) = run (perform c x) xs"

fun replaces :: "Cache \<Rightarrow> operation \<Rightarrow> bool" where
  "replaces c (Commit k p now) = (entries c k \<noteq> None)"
| "replaces c (Read k atime now) = False"
| "replaces c (Remove k) = False"
| "replaces c (Sweep visits) = False"

fun replacing :: "Cache \<Rightarrow> operation list \<Rightarrow> bool" where
  "replacing c [] = False"
| "replacing c (x # xs) = (replaces c x \<or> replacing (perform c x) xs)"

subsection \<open>Example caches\<close>

text \<open>
  \<open>notifyCache\<close>: a fresh cache of size 100 without expiry, with the callback set.
  \<open>sweepCache\<close>: size 100, expiry 50, callback set, two entries committed at the
  times 0 and 90. \<open>overwriteCache\<close>: two commits under the same key.
\<close>

definition notifyCache :: Cache where
  "notifyCache = (projr (New 100 0))\<lparr>OnEviction := True\<rparr>"

definition sweepCache :: Cache where
  "sweepCache =
    (let c = (projr (New 100 50))\<lparr>OnEviction := True\<rparr>;
         c = snd (onClose c ''a'' [1, 2] 0);
         c = snd (onClose c ''b'' [3] 90)
     in c)"

definition overwriteCache :: Cache where
  "overwriteCache =
    (let c = projr (New 100 0);
         c = snd (Close (snd (Write (Create c ''k'') [1, 2])) c 1);
         c = snd (Close (snd (Write (Create c ''k'') [3])) c 2)
     in c)"

section \<open>Auxiliary facts\<close>

subsection \<open>Sizes as 64-bit words\<close>

lemma div10_zero_iff: "(m :: 64 word) div 10 = 0 \<longleftrightarrow> m < 10"
proof -
  have "(m div 10 = 0) = (unat (m div 10) = 0)" by (simp add: unat_eq_zero)
  also have "\<dots> = (unat m div 10 = 0)" by (simp add: unat_div)
  also have "\<dots> = (unat m < 10)" by auto
  also have "\<dots> = (m < 10)" by (simp add: word_less_nat_alt)
  finally show ?thesis .
qed

lemma of_nat_le_cap:
  "n \<le> unat (m :: 64 word) \<Longrightarrow> \<not> m < (of_nat n :: 64 word)"
proof -
  assume h: "n \<le> unat m"
  then have "unat (of_nat n :: 64 word) = n" by (rule le_unat_uoi)
  with h show ?thesis by (simp add: word_less_nat_alt)
qed

lemma of_nat_gt_cap:
  "unat (m :: 64 word) < n \<Longrightarrow> n < 2 ^ 63 \<Longrightarrow> m < (of_nat n :: 64 word)"
proof -
  assume h: "unat m < n" and b: "n < 2 ^ 63"
  have "(2::nat) ^ 63 < 2 ^ 64" by simp
  with b have "n < 2 ^ 64" by (rule less_trans)
  then have "unat (of_nat n :: 64 word) = n" by (simp add: unat_of_nat)
  with h show ?thesis by (simp add: word_less_nat_alt)
qed

subsection \<open>The sweep\<close>

lemma time_Sub_le:
  "0 < e \<Longrightarrow> t - u \<le> e \<Longrightarrow> time_Sub t u \<le> e"
  by (simp add: time_Sub_def minDuration_def maxDuration_def Let_def)

lemma gc_notify_calls:
  "gc_notify ks c =
     c\<lparr>evictionCalls := evictionCalls c @ (if OnEviction c then map (\<lambda>k. (k, mutex c)) ks else [])\<rparr>"
proof (induction ks arbitrary: c)
  case Nil
  show ?case by simp
next
  case (Cons k ks)
  show ?case by (simp add: Cons.IH call_OnEviction_def)
qed

lemma delete_present:
  "entries c k = Some v \<Longrightarrow>
   delete c k = c\<lparr>entries := (entries c)(k := None),
                  currentSize := currentSize c - of_nat (length (buf v)),
                  totalEvicted := totalEvicted c + 1\<rparr>"
  by (simp add: delete_def)

lemma expired_delete_other:
  "k' \<noteq> k \<Longrightarrow> expired (delete c k) k' now = expired c k' now"
  by (simp add: expired_def delete_def split: option.split)

lemma evicted_delete_other:
  "k \<notin> fst ` set visits \<Longrightarrow> evicted (delete c k) visits = evicted c visits"
proof -
  assume h: "k \<notin> fst ` set visits"
  have "filter (\<lambda>(k', now). expired (delete c k) k' now) visits =
        filter (\<lambda>(k', now). expired c k' now) visits"
  proof (rule filter_cong [OF refl])
    fix x assume "x \<in> set visits"
    with h have "fst x \<noteq> k" by auto
    then show "(case x of (k', now) \<Rightarrow> expired (delete c k) k' now) =
               (case x of (k', now) \<Rightarrow> expired c k' now)"
      by (cases x) (simp add: expired_delete_other)
  qed
  then show ?thesis by (simp add: evicted_def)
qed

lemma entrySize_delete_other:
  "k' \<noteq> k \<Longrightarrow> entrySize (delete c k) k' = entrySize c k'"
  by (simp add: entrySize_def delete_def split: option.split)

lemma evicted_subset: "set (evicted c visits) \<subseteq> fst ` set visits"
  by (auto simp: evicted_def)

lemma evicted_iff:
  "k \<in> set (evicted c visits) \<longleftrightarrow> (\<exists>now. (k, now) \<in> set visits \<and> expired c k now)"
  by (force simp: evicted_def)

lemma distinct_evicted: "distinct (map fst visits) \<Longrightarrow> distinct (evicted c visits)"
  unfolding evicted_def by (rule distinct_map_filter)

text \<open>
  The loop of the sweep, on a visiting order without repetition: the cache it leaves
  and the keys it collects, in terms of the cache before the sweep.
\<close>

lemma gc_loop_distinct:
  "distinct (map fst visits) \<Longrightarrow>
   gc_loop visits c ev =
     (c\<lparr>entries := (\<lambda>k. if k \<in> set (evicted c visits) then None else entries c k),
        currentSize := currentSize c - of_nat (sum_list (map (entrySize c) (evicted c visits))),
        totalEvicted := totalEvicted c + of_nat (length (evicted c visits))\<rparr>,
      ev @ evicted c visits)"
proof (induction visits arbitrary: c ev)
  case Nil
  show ?case by (simp add: evicted_def)
next
  case (Cons x visits)
  obtain k now where x: "x = (k, now)" by (cases x)
  from Cons.prems x have notin: "k \<notin> fst ` set visits" and dist: "distinct (map fst visits)"
    by auto
  note IH = Cons.IH [OF dist]
  show ?case
  proof (cases "entries c k")
    case None
    then have "evicted c (x # visits) = evicted c visits"
      by (simp add: x evicted_def expired_def)
    with None show ?thesis by (simp add: x IH)
  next
    case (Some v)
    show ?thesis
    proof (cases "0 < expiry c \<and> expiry c < time_Sub now (lastAccessed v)")
      case False
      with Some have "evicted c (x # visits) = evicted c visits"
        by (simp add: x evicted_def expired_def)
      moreover have "gc_loop (x # visits) c ev = gc_loop visits c ev"
        using Some False by (auto simp: x)
      ultimately show ?thesis by (simp add: IH)
    next
      case True
      with Some have ev: "evicted c (x # visits) = k # evicted c visits"
        by (simp add: x evicted_def expired_def)
      have same: "evicted (delete c k) visits = evicted c visits"
        using notin by (rule evicted_delete_other)
      have knot: "k \<notin> set (evicted c visits)"
        using notin evicted_subset [of c visits] by auto
      have sizes: "map (entrySize (delete c k)) (evicted c visits) = map (entrySize c) (evicted c visits)"
      proof (rule map_cong [OF refl])
        fix k' assume "k' \<in> set (evicted c visits)"
        with knot have "k' \<noteq> k" by auto
        then show "entrySize (delete c k) k' = entrySize c k'" by (rule entrySize_delete_other)
      qed
      have ksize: "entrySize c k = length (buf v)" using Some by (simp add: entrySize_def)
      have step: "gc_loop (x # visits) c ev = gc_loop visits (delete c k) (ev @ [k])"
        using Some True by (simp add: x)
      show ?thesis
        unfolding step IH same sizes ev
        by (simp add: delete_present [OF Some] ksize fun_eq_iff)
    qed
  qed
qed

lemma gc_eq:
  "distinct (map fst visits) \<Longrightarrow>
   gc c visits =
     c\<lparr>mutex := False,
       entries := (\<lambda>k. if k \<in> set (evicted c visits) then None else entries c k),
       currentSize := currentSize c - of_nat (sum_list (map (entrySize c) (evicted c visits))),
       totalEvicted := totalEvicted c + of_nat (length (evicted c visits)),
       evictionCalls := evictionCalls c @
         (if OnEviction c then map (\<lambda>k. (k, False)) (evicted c visits) else [])\<rparr>"
proof -
  assume d: "distinct (map fst visits)"
  have "expired (Lock c) = expired c"
    by (simp add: expired_def Lock_def fun_eq_iff split: option.split)
  then have e: "evicted (Lock c) visits = evicted c visits"
    by (simp add: evicted_def)
  have s: "entrySize (Lock c) = entrySize c"
    by (simp add: entrySize_def Lock_def fun_eq_iff)
  have loop: "gc_loop visits (Lock c) [] =
      ((Lock c)\<lparr>entries := (\<lambda>k. if k \<in> set (evicted c visits) then None else entries (Lock c) k),
         currentSize := currentSize (Lock c) - of_nat (sum_list (map (entrySize c) (evicted c visits))),
         totalEvicted := totalEvicted (Lock c) + of_nat (length (evicted c visits))\<rparr>,
       evicted c visits)"
    by (simp add: gc_loop_distinct [OF d] e s)
  show ?thesis
    unfolding gc_def Let_def loop prod.case
    by (simp add: gc_notify_calls Unlock_def Lock_def cong: if_cong)
qed

lemma set_evicted:
  "distinct (map fst visits) \<Longrightarrow>
   set (evicted c visits) = {k. entries c k \<noteq> None \<and> entries (gc c visits) k = None}"
proof -
  assume d: "distinct (map fst visits)"
  have "k \<in> set (evicted c visits) \<Longrightarrow> entries c k \<noteq> None" for k
    by (auto simp: evicted_iff expired_def split: option.splits)
  then show ?thesis
    by (auto simp: gc_eq [OF d])
qed

text \<open>Without expiry the sweep removes nothing.\<close>

lemma gc_loop_no_expiry: "\<not> 0 < expiry c \<Longrightarrow> gc_loop visits c ev = (c, ev)"
proof (induction visits)
  case Nil
  show ?case by simp
next
  case (Cons x visits)
  then show ?case by (cases x) (simp split: option.split)
qed

lemma gc_no_expiry:
  "\<not> 0 < expiry c \<Longrightarrow> gc c visits = Unlock c"
  by (simp add: gc_def Lock_def gc_loop_no_expiry Unlock_def)

subsection \<open>Callback invocations of Open and of closing a sink\<close>

lemma Open_calls: "evictionCalls (snd (Open c k atime now)) = evictionCalls c"
  by (simp add: Open_def delete_def Lock_def Unlock_def Let_def split: option.split)

lemma onClose_calls: "evictionCalls (snd (onClose c k b now)) = evictionCalls c"
  by (simp add: onClose_def Lock_def Unlock_def Let_def)

subsection \<open>Size accounting, operation by operation\<close>

text \<open>
  Every operation keeps \<open>currentSize\<close> equal to the sum of the stored byte lengths,
  provided that a commit goes to a key that is not stored.
\<close>

lemma storedSize_remove:
  assumes "finite (dom (entries c))" and "entries c k = Some v"
  shows "storedSize c = length (buf v) + storedSize (c\<lparr>entries := (entries c)(k := None)\<rparr>)"
proof -
  from assms(2) have k: "k \<in> dom (entries c)" by auto
  have "storedSize c = entrySize c k + (\<Sum>x \<in> dom (entries c) - {k}. entrySize c x)"
    unfolding storedSize_def by (rule sum.remove [OF assms(1) k])
  moreover have "(\<Sum>x \<in> dom (entries c) - {k}. entrySize c x) =
      (\<Sum>x \<in> dom (entries c) - {k}. entrySize (c\<lparr>entries := (entries c)(k := None)\<rparr>) x)"
    by (rule sum.cong) (auto simp: entrySize_def)
  ultimately show ?thesis using assms(2) by (simp add: storedSize_def entrySize_def)
qed

lemma storedSize_insert:
  assumes "finite (dom (entries c))" and "entries c k = None"
  shows "storedSize (c\<lparr>entries := (entries c)(k \<mapsto> v)\<rparr>) = length (buf v) + storedSize c"
proof -
  let ?c' = "c\<lparr>entries := (entries c)(k \<mapsto> v)\<rparr>"
  from assms(2) have k: "k \<notin> dom (entries c)" by auto
  have e1: "entrySize ?c' k = length (buf v)" by (simp add: entrySize_def)
  have e2: "entrySize ?c' x = entrySize c x" if "x \<in> dom (entries c)" for x
    using that k by (auto simp: entrySize_def)
  have "storedSize ?c' = sum (entrySize ?c') (insert k (dom (entries c)))"
    by (simp add: storedSize_def)
  also have "\<dots> = entrySize ?c' k + sum (entrySize ?c') (dom (entries c))"
    by (rule sum.insert [OF assms(1) k])
  also have "sum (entrySize ?c') (dom (entries c)) = sum (entrySize c) (dom (entries c))"
    by (rule sum.cong [OF refl e2])
  finally show ?thesis by (simp only: e1 storedSize_def)
qed

lemma storedSize_touch:
  assumes "entries c k = Some v"
  shows "storedSize (c\<lparr>entries := (entries c)(k \<mapsto> v\<lparr>lastAccessed := t\<rparr>)\<rparr>) = storedSize c"
proof -
  from assms have "insert k (dom (entries c)) = dom (entries c)" by auto
  then show ?thesis
    unfolding storedSize_def using assms
    by (intro sum.cong) (auto simp: entrySize_def)
qed

lemma accounted_cong:
  "entries c' = entries c \<Longrightarrow> currentSize c' = currentSize c \<Longrightarrow> accounted c' = accounted c"
  by (simp add: accounted_def storedSize_def entrySize_def)

lemma accounted_mutex: "accounted (c\<lparr>mutex := m\<rparr>) = accounted c"
  by (simp add: accounted_def storedSize_def entrySize_def)

lemma accounted_calls: "accounted (c\<lparr>evictionCalls := l\<rparr>) = accounted c"
  by (simp add: accounted_def storedSize_def entrySize_def)

lemma accounted_New: "New m x = Inr c \<Longrightarrow> accounted c"
  by (auto simp: New_def accounted_def storedSize_def Let_def split: if_splits)

lemma accounted_delete: "accounted c \<Longrightarrow> accounted (delete c k)"
proof (cases "entries c k")
  case None
  assume "accounted c"
  with None show ?thesis by (simp add: delete_def)
next
  case (Some v)
  assume a: "accounted c"
  then have fin: "finite (dom (entries c))" by (simp add: accounted_def)
  from a storedSize_remove [OF fin Some]
  have "currentSize c - of_nat (length (buf v)) =
        (of_nat (storedSize (c\<lparr>entries := (entries c)(k := None)\<rparr>)) :: 64 word)"
    by (simp add: accounted_def)
  moreover have "storedSize (delete c k) = storedSize (c\<lparr>entries := (entries c)(k := None)\<rparr>)"
    by (simp add: delete_present [OF Some] storedSize_def entrySize_def)
  ultimately show ?thesis
    using fin by (simp add: accounted_def delete_present [OF Some])
qed

lemma accounted_Delete: "accounted c \<Longrightarrow> accounted (Delete c k)"
proof -
  assume "accounted c"
  then have "accounted (delete (Lock c) k)"
    by (intro accounted_delete) (simp add: Lock_def accounted_mutex)
  then show ?thesis
    by (simp add: Delete_def Let_def Unlock_def call_OnEviction_def accounted_mutex accounted_calls)
qed

lemma accounted_Open: "accounted c \<Longrightarrow> accounted (snd (Open c k atime now))"
proof (cases "entries c k")
  case None
  assume "accounted c"
  with None show ?thesis by (simp add: Open_def Lock_def Unlock_def accounted_mutex)
next
  case (Some v)
  assume a: "accounted c"
  show ?thesis
  proof (cases "time_Before (lastAccessed v) atime")
    case True
    from a have "accounted (delete (Lock c) k)"
      by (intro accounted_delete) (simp add: Lock_def accounted_mutex)
    with Some True show ?thesis
      by (simp add: Open_def Lock_def Unlock_def accounted_mutex)
  next
    case False
    have "accounted (c\<lparr>entries := (entries c)(k \<mapsto> v\<lparr>lastAccessed := now\<rparr>)\<rparr>)"
      using a storedSize_touch [OF Some, of now] by (simp add: accounted_def)
    moreover have "accounted (snd (Open c k atime now)) =
        accounted (c\<lparr>entries := (entries c)(k \<mapsto> v\<lparr>lastAccessed := now\<rparr>)\<rparr>)"
      using Some False
      by (intro accounted_cong) (simp_all add: Open_def Lock_def Unlock_def)
    ultimately show ?thesis by simp
  qed
qed

lemma accounted_onClose_fresh:
  assumes "accounted c" and "entries c k = None"
  shows "accounted (snd (onClose c k b now))"
proof -
  from assms(1) have fin: "finite (dom (entries c))" by (simp add: accounted_def)
  have "storedSize (c\<lparr>entries := (entries c)(k \<mapsto> \<lparr>buf = b, lastAccessed = now\<rparr>)\<rparr>) =
        length b + storedSize c"
    using storedSize_insert [OF fin assms(2), of "\<lparr>buf = b, lastAccessed = now\<rparr>"] by simp
  then have "accounted (c\<lparr>entries := (entries c)(k \<mapsto> \<lparr>buf = b, lastAccessed = now\<rparr>),
                          currentSize := currentSize c + of_nat (length b)\<rparr>)"
    using assms(1) fin by (simp add: accounted_def storedSize_def entrySize_def)
  then have "accounted (c\<lparr>entries := (entries c)(k \<mapsto> \<lparr>buf = b, lastAccessed = now\<rparr>),
                          currentSize := currentSize c + of_nat (length b), mutex := False\<rparr>)"
    by (simp add: accounted_def storedSize_def entrySize_def)
  with assms(1) show ?thesis
    by (simp add: onClose_def Lock_def Unlock_def Let_def accounted_mutex)
qed

lemma accounted_gc_loop: "accounted c \<Longrightarrow> accounted (fst (gc_loop visits c ev))"
proof (induction visits c ev rule: gc_loop.induct)
  case (1 c ev)
  then show ?case by simp
next
  case (2 k now rest c ev)
  show ?case
  proof (cases "entries c k")
    case None
    with 2 show ?thesis by simp
  next
    case (Some v)
    show ?thesis
    proof (cases "0 < expiry c \<and> expiry c < time_Sub now (lastAccessed v)")
      case True
      have "accounted (delete c k)" using "2.prems" by (rule accounted_delete)
      with "2.IH"(2) [OF Some True] Some True show ?thesis by simp
    next
      case False
      with "2.IH"(3) [OF Some False "2.prems"] Some show ?thesis by auto
    qed
  qed
qed

lemma gc_notify_accounted: "accounted (gc_notify ks c) = accounted c"
  by (simp add: gc_notify_calls accounted_calls)

lemma accounted_gc: "accounted c \<Longrightarrow> accounted (gc c visits)"
proof -
  assume "accounted c"
  then have "accounted (Lock c)" by (simp add: Lock_def accounted_mutex)
  then have "accounted (fst (gc_loop visits (Lock c) []))" by (rule accounted_gc_loop)
  then show ?thesis
    by (simp add: gc_def Let_def split_beta gc_notify_accounted Unlock_def accounted_mutex)
qed

lemma accounted_perform: "accounted c \<Longrightarrow> \<not> replaces c x \<Longrightarrow> accounted (perform c x)"
proof (cases x)
  case (Commit k p now)
  assume "accounted c" and "\<not> replaces c x"
  with Commit show ?thesis
    using accounted_onClose_fresh [of c k p now]
    by (simp add: Close_def Write_def Create_def)
next
  case (Read k atime now)
  assume "accounted c"
  with Read show ?thesis by (simp add: accounted_Open)
next
  case (Remove k)
  assume "accounted c"
  with Remove show ?thesis by (simp add: accounted_Delete)
next
  case (Sweep visits)
  assume "accounted c"
  with Sweep show ?thesis by (simp add: accounted_gc)
qed

lemma accounted_run: "accounted c \<Longrightarrow> \<not> replacing c ops \<Longrightarrow> accounted (run c ops)"
proof (induction ops arbitrary: c)
  case Nil
  then show ?case by simp
next
  case (Cons x ops)
  from Cons.prems have "accounted (perform c x)" by (simp add: accounted_perform)
  with Cons show ?case by simp
qed

subsection \<open>The example caches, evaluated\<close>

lemma notifyCache_eq:
  "notifyCache =
    \<lparr>mutex = False, maxSize = 100, maxCacheEntrySize = 10, currentSize = 0,
     OnEviction = True, totalEvicted = 0, entries = Map.empty,
     expiry = 0, stopGC = False, evictionCalls = []\<rparr>"
  by (simp add: notifyCache_def New_def defaultBufferRatio_def Let_def)

lemma sweepCache_eq:
  "sweepCache =
    \<lparr>mutex = False, maxSize = 100, maxCacheEntrySize = 10, currentSize = 3,
     OnEviction = True, totalEvicted = 0,
     entries = [''a'' \<mapsto> \<lparr>buf = [1, 2], lastAccessed = 0\<rparr>,
                ''b'' \<mapsto> \<lparr>buf = [3], lastAccessed = 90\<rparr>],
     expiry = 50, stopGC = True, evictionCalls = []\<rparr>"
  by (simp add: sweepCache_def New_def defaultBufferRatio_def onClose_def Lock_def Unlock_def Let_def)

lemma sweepCache_fields:
  "expiry sweepCache = 50"
  "entries sweepCache = [''a'' \<mapsto> \<lparr>buf = [1, 2], lastAccessed = 0\<rparr>,
                         ''b'' \<mapsto> \<lparr>buf = [3], lastAccessed = 90\<rparr>]"
  "currentSize sweepCache = 3"
  "totalEvicted sweepCache = 0"
  "OnEviction sweepCache = True"
  "evictionCalls sweepCache = []"
  by (simp_all add: sweepCache_eq)

lemma sweep_times: "time_Sub 100 90 = 10" "time_Sub 101 0 = 101"
  by (simp_all add: time_Sub_def minDuration_def maxDuration_def)

lemma sweep_evicted: "evicted sweepCache [(''b'', 100), (''a'', 101)] = [''a'']"
  by (simp add: evicted_def expired_def sweepCache_fields sweep_times)

lemma overwriteCache_eq:
  "overwriteCache =
    \<lparr>mutex = False, maxSize = 100, maxCacheEntrySize = 10, currentSize = 3,
     OnEviction = False, totalEvicted = 0,
     entries = [''k'' \<mapsto> \<lparr>buf = [3], lastAccessed = 2\<rparr>],
     expiry = 0, stopGC = False, evictionCalls = []\<rparr>"
  by (simp add: overwriteCache_def New_def defaultBufferRatio_def Close_def Write_def Create_def
      onClose_def Lock_def Unlock_def Let_def)

section \<open>The claims\<close>

subsection \<open>C1: size accounting\<close>

text \<open>
  C1 says that after every sequence of operations, a commit that replaces an entry under
  the same key included, \<open>currentSize\<close> is the sum of the byte lengths of the stored
  entries. The code adds the length of a committed buffer without subtracting the length
  of the entry it replaces: after committing two bytes and then one byte under the key
  \<open>k\<close> of a fresh cache, one byte is stored and \<open>currentSize\<close> is 3; deleting the
  entry leaves an empty cache with \<open>currentSize\<close> 2. Every other path keeps the
  account (\<open>accounted_run\<close>): \<open>delete\<close> subtracts what it removes, and a commit
  under a key that is not stored adds what it stores.
\<close>

theorem currentSize_overwrite:
  "entries overwriteCache = [''k'' \<mapsto> \<lparr>buf = [3], lastAccessed = 2\<rparr>] \<and>
   storedSize overwriteCache = 1 \<and>
   currentSize overwriteCache = 3 \<and>
   entries (Delete overwriteCache ''k'') = Map.empty \<and>
   storedSize (Delete overwriteCache ''k'') = 0 \<and>
   currentSize (Delete overwriteCache ''k'') = 2"
  by (simp add: overwriteCache_eq storedSize_def entrySize_def
      Delete_def delete_def Lock_def Unlock_def Let_def)

subsection \<open>C2: the eviction callback\<close>

text \<open>
  C2 as stated is false: it says that the callback is invoked only when an entry was
  deleted, so that \<open>Delete\<close> of an absent key invokes nothing. On a fresh cache with
  the callback set, \<open>Delete\<close> of the key \<open>k\<close> removes nothing and counts nothing, and
  invokes the callback once.
\<close>

theorem OnEviction_counterexample:
  "entries notifyCache ''k'' = None \<and>
   entries (Delete notifyCache ''k'') = entries notifyCache \<and>
   totalEvicted (Delete notifyCache ''k'') = totalEvicted notifyCache \<and>
   evictionCalls notifyCache = [] \<and>
   evictionCalls (Delete notifyCache ''k'') = [(''k'', False)]"
  by (simp add: notifyCache_eq Delete_def delete_def Lock_def Unlock_def call_OnEviction_def Let_def)

text \<open>
  C2, amended: when the callback is set, every call of \<open>Delete k\<close> invokes it exactly
  once with \<open>k\<close>, whether or not an entry is stored under \<open>k\<close>, and a sweep invokes
  it exactly once for each key whose entry the sweep removed, and for no other key; every
  invocation happens with the mutex released: \<open>Delete\<close> and the sweep record their
  invocations with the mutex free, and neither \<open>Open\<close> nor closing a sink adds an
  invocation made under the lock. When the callback is not set nothing is invoked. (The
  visiting order of a sweep has no repetition: a Go range produces each key once.)
\<close>

theorem OnEviction_calls:
  assumes "distinct (map fst visits)"
  shows
   "evictionCalls (Delete c k) = evictionCalls c @ (if OnEviction c then [(k, False)] else []) \<and>
    evictionCalls (gc c visits) =
      evictionCalls c @ (if OnEviction c then map (\<lambda>k. (k, False)) (evicted c visits) else []) \<and>
    distinct (evicted c visits) \<and>
    set (evicted c visits) = {k. entries c k \<noteq> None \<and> entries (gc c visits) k = None} \<and>
    snd ` set (evictionCalls (snd (Open c k atime now))) \<subseteq> insert False (snd ` set (evictionCalls c)) \<and>
    snd ` set (evictionCalls (snd (onClose c k b now))) \<subseteq> insert False (snd ` set (evictionCalls c))"
proof -
  have "evictionCalls (Delete c k) = evictionCalls c @ (if OnEviction c then [(k, False)] else [])"
    by (simp add: Delete_def delete_def Lock_def Unlock_def call_OnEviction_def Let_def
        split: option.split)
  moreover have "evictionCalls (gc c visits) =
      evictionCalls c @ (if OnEviction c then map (\<lambda>k. (k, False)) (evicted c visits) else [])"
    by (simp add: gc_eq [OF assms])
  moreover have "snd ` set (evictionCalls (snd (Open c k atime now)))
      \<subseteq> insert False (snd ` set (evictionCalls c))"
    unfolding Open_calls by (rule subset_insertI)
  moreover have "snd ` set (evictionCalls (snd (onClose c k b now)))
      \<subseteq> insert False (snd ` set (evictionCalls c))"
    unfolding onClose_calls by (rule subset_insertI)
  ultimately show ?thesis
    using distinct_evicted [OF assms, of c] set_evicted [OF assms, of c] by simp
qed

theorem OnEviction_calls_witness:
  "distinct (map fst [(''b'', 100 :: time), (''a'', 101)]) \<and>
   evictionCalls (Delete sweepCache ''zz'') = [(''zz'', False)] \<and>
   evictionCalls (gc sweepCache [(''b'', 100), (''a'', 101)]) = [(''a'', False)]"
proof -
  have h: "distinct (map fst [(''b'', 100 :: time), (''a'', 101)])" by simp
  note th = OnEviction_calls [OF h, of sweepCache "''zz''"]
  show ?thesis
    using th [THEN conjunct1] th [THEN conjunct2, THEN conjunct1]
    by (simp add: sweep_evicted sweepCache_fields)
qed

text \<open>
  The freshness check of \<open>Open\<close> removes a stale entry through \<open>delete\<close> and returns
  under the lock; no callback is invoked on that path.
\<close>

lemma Open_stale_no_callback:
  "entries (snd (onClose notifyCache ''k'' [1] 5)) ''k'' = Some \<lparr>buf = [1], lastAccessed = 5\<rparr> \<and>
   fst (Open (snd (onClose notifyCache ''k'' [1] 5)) ''k'' 7 9) = Inl ErrKeyNotFoundInCache \<and>
   entries (snd (Open (snd (onClose notifyCache ''k'' [1] 5)) ''k'' 7 9)) ''k'' = None \<and>
   totalEvicted (snd (Open (snd (onClose notifyCache ''k'' [1] 5)) ''k'' 7 9)) = 1 \<and>
   evictionCalls (snd (Open (snd (onClose notifyCache ''k'' [1] 5)) ''k'' 7 9)) = []"
  by (simp add: notifyCache_eq onClose_def Open_def delete_def Lock_def Unlock_def
      time_Before_def Let_def)

subsection \<open>C3: round trip\<close>

text \<open>
  C3: for a payload \<open>p\<close> with \<open>0 < len p \<le> maxCacheEntrySize\<close>, creating a sink for
  \<open>k\<close>, writing \<open>p\<close> and closing it at \<open>commitTime\<close> returns no error, and a following
  \<open>Open k t\<close> with \<open>t \<le> commitTime\<close> returns no error and exactly the bytes \<open>p\<close>.
\<close>

theorem round_trip:
  assumes "0 < length p" and "length p \<le> unat (maxCacheEntrySize c)" and "t \<le> commitTime"
  shows "\<exists>c' c''. Close (snd (Write (Create c k) p)) c commitTime = (None, c') \<and>
                  Open c' k t now = (Inr p, c'')"
  using assms of_nat_le_cap [of "length p" "maxCacheEntrySize c"]
  by (simp add: Close_def Write_def Create_def onClose_def Open_def Lock_def Unlock_def
      time_Before_def Let_def)

theorem round_trip_witness:
  "0 < length [1, 2, 3 :: byte] \<and>
   length [1, 2, 3 :: byte] \<le> unat (maxCacheEntrySize notifyCache) \<and>
   (5 :: time) \<le> 5 \<and>
   fst (Close (snd (Write (Create notifyCache ''k'') [1, 2, 3])) notifyCache 5) = None \<and>
   fst (Open (snd (Close (snd (Write (Create notifyCache ''k'') [1, 2, 3])) notifyCache 5)) ''k'' 5 9)
     = Inr [1, 2, 3]"
proof -
  have h1: "0 < length [1, 2, 3 :: byte]" by simp
  have h2: "length [1, 2, 3 :: byte] \<le> unat (maxCacheEntrySize notifyCache)"
    by (simp add: notifyCache_eq)
  have h3: "(5 :: time) \<le> 5" by simp
  from round_trip [OF h1 h2 h3, of "''k''" 9] h1 h2 h3 show ?thesis by auto
qed

subsection \<open>C4: freshness check of Open\<close>

text \<open>
  C4: for an entry \<open>b\<close> stored under \<open>k\<close>, if its \<open>lastAccessed\<close> is strictly before
  the reference time then \<open>Open\<close> returns the not-found error and removes the entry, and
  every following \<open>Open k\<close> is a miss; otherwise \<open>Open\<close> succeeds with the bytes of the
  entry and sets its \<open>lastAccessed\<close> to the current time.
\<close>

theorem Open_freshness:
  assumes "entries c k = Some b"
  shows "(lastAccessed b < atime \<longrightarrow>
           (\<exists>c'. Open c k atime now = (Inl ErrKeyNotFoundInCache, c') \<and>
                 entries c' = (entries c)(k := None) \<and>
                 (\<forall>t n. fst (Open c' k t n) = Inl ErrKeyNotFoundInCache))) \<and>
         (\<not> lastAccessed b < atime \<longrightarrow>
           (\<exists>c'. Open c k atime now = (Inr (buf b), c') \<and>
                 entries c' = (entries c)(k \<mapsto> b\<lparr>lastAccessed := now\<rparr>)))"
  using assms
  by (simp add: Open_def delete_def Lock_def Unlock_def time_Before_def Let_def)

theorem Open_freshness_witness:
  "entries sweepCache ''a'' = Some \<lparr>buf = [1, 2], lastAccessed = 0\<rparr> \<and>
   fst (Open sweepCache ''a'' 1 200) = Inl ErrKeyNotFoundInCache \<and>
   entries (snd (Open sweepCache ''a'' 1 200)) ''a'' = None \<and>
   fst (Open sweepCache ''a'' 0 200) = Inr [1, 2] \<and>
   entries (snd (Open sweepCache ''a'' 0 200)) ''a'' = Some \<lparr>buf = [1, 2], lastAccessed = 200\<rparr>"
proof -
  have h: "entries sweepCache ''a'' = Some \<lparr>buf = [1, 2], lastAccessed = 0\<rparr>"
    by (simp add: sweepCache_fields)
  from Open_freshness [OF h, of 1 200] Open_freshness [OF h, of 0 200] h
  show ?thesis by auto
qed

subsection \<open>C5: closing an empty sink\<close>

text \<open>
  C5: closing a sink of \<open>Create k\<close> that holds no bytes (nothing written, or an empty
  write) returns no error and leaves the entries, \<open>currentSize\<close> and \<open>totalEvicted\<close>
  as they were; when no entry was stored under \<open>k\<close>, a following \<open>Open k\<close> returns
  the not-found error.
\<close>

theorem zero_byte_noop:
  "\<exists>c'. Close (Create c k) c now = (None, c') \<and>
        Close (snd (Write (Create c k) [])) c now = (None, c') \<and>
        entries c' = entries c \<and> currentSize c' = currentSize c \<and>
        totalEvicted c' = totalEvicted c \<and>
        (entries c k = None \<longrightarrow> (\<forall>t n. fst (Open c' k t n) = Inl ErrKeyNotFoundInCache))"
  by (simp add: Close_def Write_def Create_def onClose_def Open_def Lock_def Unlock_def Let_def)

theorem zero_byte_noop_witness:
  "entries notifyCache ''k'' = None \<and>
   fst (Close (Create notifyCache ''k'') notifyCache 5) = None \<and>
   entries (snd (Close (Create notifyCache ''k'') notifyCache 5)) = entries notifyCache \<and>
   fst (Open (snd (Close (Create notifyCache ''k'') notifyCache 5)) ''k'' 0 9) = Inl ErrKeyNotFoundInCache"
proof -
  have h: "entries notifyCache ''k'' = None" by (simp add: notifyCache_eq)
  from zero_byte_noop [of notifyCache "''k''" 5] h show ?thesis by auto
qed

subsection \<open>C6: a payload above the entry cap\<close>

text \<open>
  C6: for a payload longer than \<open>maxCacheEntrySize\<close>, closing the sink returns
  \<open>ErrCacheFull\<close> and leaves the entries, \<open>currentSize\<close> and \<open>totalEvicted\<close> as they
  were. The length of a Go slice is an \<open>int\<close>, hence below \<open>2 ^ 63\<close>.
\<close>

theorem cache_full:
  assumes "unat (maxCacheEntrySize c) < length p" and "length p < 2 ^ 63"
  shows "\<exists>c'. Close (snd (Write (Create c k) p)) c now = (Some ErrCacheFull, c') \<and>
              entries c' = entries c \<and> currentSize c' = currentSize c \<and>
              totalEvicted c' = totalEvicted c"
proof -
  from assms have "p \<noteq> []" by auto
  then show ?thesis
    using of_nat_gt_cap [OF assms]
    by (simp add: Close_def Write_def Create_def onClose_def Lock_def Unlock_def Let_def)
qed

theorem cache_full_witness:
  "unat (maxCacheEntrySize notifyCache) < length (replicate 11 (0 :: byte)) \<and>
   length (replicate 11 (0 :: byte)) < 2 ^ 63 \<and>
   fst (Close (snd (Write (Create notifyCache ''k'') (replicate 11 0))) notifyCache 5) = Some ErrCacheFull \<and>
   entries (snd (Close (snd (Write (Create notifyCache ''k'') (replicate 11 0))) notifyCache 5)) = entries notifyCache \<and>
   currentSize (snd (Close (snd (Write (Create notifyCache ''k'') (replicate 11 0))) notifyCache 5)) = currentSize notifyCache"
proof -
  have h1: "unat (maxCacheEntrySize notifyCache) < length (replicate 11 (0 :: byte))"
    by (simp add: notifyCache_eq)
  have h2: "length (replicate 11 (0 :: byte)) < 2 ^ 63" by simp
  from cache_full [OF h1 h2, of "''k''" 5] h1 h2 show ?thesis by auto
qed

subsection \<open>C7: New\<close>

text \<open>
  C7: \<open>New\<close> returns an error exactly when \<open>maxSize\<close> is 0; for every other
  \<open>maxSize\<close> it returns a cache whose \<open>maxCacheEntrySize\<close> is \<open>maxSize div 10\<close>, or
  \<open>maxSize\<close> itself when that quotient is 0, which is the case exactly when
  \<open>maxSize < 10\<close>.
\<close>

theorem New_result:
  "(isl (New m x) \<longleftrightarrow> m = 0) \<and>
   (m \<noteq> 0 \<longrightarrow> (\<exists>c. New m x = Inr c \<and>
      maxCacheEntrySize c = (if m div 10 = 0 then m else m div 10) \<and>
      (m div 10 = 0 \<longleftrightarrow> m < 10)))"
  by (simp add: New_def defaultBufferRatio_def Let_def div10_zero_iff)

theorem New_result_witness:
  "(25 :: 64 word) \<noteq> 0 \<and> (\<exists>c. New 25 0 = Inr c \<and> maxCacheEntrySize c = 2) \<and>
   (7 :: 64 word) \<noteq> 0 \<and> (\<exists>c. New 7 0 = Inr c \<and> maxCacheEntrySize c = 7)"
  using New_result [of 25 0] New_result [of 7 0] by simp

subsection \<open>C8: the error ErrExcessData\<close>

text \<open>
  C8: no operation returns \<open>ErrExcessData\<close>, in any state of the cache: not \<open>New\<close>,
  not a write to a sink, not closing a sink, not \<open>Open\<close>. \<open>Delete\<close> and \<open>gc\<close>
  return no error value at all.
\<close>

theorem no_excess_data:
  "New m x \<noteq> Inl ErrExcessData \<and>
   snd (fst (Write wc p)) \<noteq> Some ErrExcessData \<and>
   fst (Close wc c now) \<noteq> Some ErrExcessData \<and>
   fst (onClose c k b now) \<noteq> Some ErrExcessData \<and>
   fst (Open c k t now) \<noteq> Inl ErrExcessData"
  by (simp add: New_def Write_def Close_def onClose_def Open_def Let_def split: option.split)

subsection \<open>C9: the sweep\<close>

text \<open>
  C9: in a cache with expiry enabled (\<open>0 < expiry\<close>, the only case in which \<open>New\<close>
  starts the janitor), a sweep that visits every stored key once removes exactly the
  entries whose idle time at their visit, \<open>time_Sub now lastAccessed\<close>, exceeds
  \<open>expiry\<close>, and leaves every other entry as it was; \<open>currentSize\<close> drops by the byte
  lengths of the removed entries, \<open>totalEvicted\<close> grows by their number, and afterwards
  the callback, when set, is invoked once per removed key, in order of removal, with the
  mutex released. An entry with \<open>now - lastAccessed \<le> expiry\<close> is kept.
\<close>

theorem gc_sweep:
  assumes "0 < expiry c" and "distinct (map fst visits)"
    and "fst ` set visits = dom (entries c)"
  shows
    "(\<forall>k \<in> dom (entries c). \<exists>now v. (k, now) \<in> set visits \<and> entries c k = Some v \<and>
        (if expiry c < time_Sub now (lastAccessed v)
         then entries (gc c visits) k = None \<and> k \<in> set (evicted c visits)
         else entries (gc c visits) k = Some v \<and> k \<notin> set (evicted c visits)) \<and>
        (now - lastAccessed v \<le> expiry c \<longrightarrow> entries (gc c visits) k = Some v)) \<and>
     dom (entries (gc c visits)) \<subseteq> dom (entries c) \<and>
     set (evicted c visits) \<subseteq> dom (entries c) \<and>
     distinct (evicted c visits) \<and>
     currentSize (gc c visits) =
       currentSize c - of_nat (sum_list (map (entrySize c) (evicted c visits))) \<and>
     totalEvicted (gc c visits) = totalEvicted c + of_nat (length (evicted c visits)) \<and>
     evictionCalls (gc c visits) = evictionCalls c @
       (if OnEviction c then map (\<lambda>k. (k, False)) (evicted c visits) else [])"
proof -
  note eq = gc_eq [OF assms(2), of c]
  have ent: "entries (gc c visits) = (\<lambda>k. if k \<in> set (evicted c visits) then None else entries c k)"
    by (simp add: eq)
  have uniq: "\<And>k n n'. (k, n) \<in> set visits \<Longrightarrow> (k, n') \<in> set visits \<Longrightarrow> n = n'"
    using assms(2) by (meson eq_key_imp_eq_value)
  have main: "\<exists>now v. (k, now) \<in> set visits \<and> entries c k = Some v \<and>
        (if expiry c < time_Sub now (lastAccessed v)
         then entries (gc c visits) k = None \<and> k \<in> set (evicted c visits)
         else entries (gc c visits) k = Some v \<and> k \<notin> set (evicted c visits)) \<and>
        (now - lastAccessed v \<le> expiry c \<longrightarrow> entries (gc c visits) k = Some v)"
    if k: "k \<in> dom (entries c)" for k
  proof -
    from k obtain v where v: "entries c k = Some v" by auto
    from k assms(3) obtain now where n: "(k, now) \<in> set visits" by force
    have iff: "k \<in> set (evicted c visits) \<longleftrightarrow> expiry c < time_Sub now (lastAccessed v)"
    proof
      assume "k \<in> set (evicted c visits)"
      then obtain n' where "(k, n') \<in> set visits" and ex: "expired c k n'"
        by (auto simp: evicted_iff)
      with n have "n' = now" by (auto dest: uniq)
      with ex v show "expiry c < time_Sub now (lastAccessed v)" by (simp add: expired_def)
    next
      assume "expiry c < time_Sub now (lastAccessed v)"
      with v assms(1) have "expired c k now" by (simp add: expired_def)
      with n show "k \<in> set (evicted c visits)" by (auto simp: evicted_iff)
    qed
    have touched: "now - lastAccessed v \<le> expiry c \<longrightarrow> \<not> expiry c < time_Sub now (lastAccessed v)"
      using time_Sub_le [OF assms(1), of now "lastAccessed v"] by auto
    show ?thesis
      using n v iff touched by (intro exI [of _ now] exI [of _ v]) (simp add: ent)
  qed
  have sub: "set (evicted c visits) \<subseteq> dom (entries c)"
    using evicted_subset [of c visits] assms(3) by simp
  have dom: "dom (entries (gc c visits)) \<subseteq> dom (entries c)"
    by (auto simp: ent split: if_splits)
  show ?thesis
    using main sub dom distinct_evicted [OF assms(2), of c]
    by (simp add: eq)
qed

theorem gc_sweep_witness:
  "0 < expiry sweepCache \<and>
   distinct (map fst [(''b'', 100 :: time), (''a'', 101)]) \<and>
   fst ` set [(''b'', 100 :: time), (''a'', 101)] = dom (entries sweepCache) \<and>
   entries (gc sweepCache [(''b'', 100), (''a'', 101)]) ''a'' = None \<and>
   entries (gc sweepCache [(''b'', 100), (''a'', 101)]) ''b'' = Some \<lparr>buf = [3], lastAccessed = 90\<rparr> \<and>
   currentSize (gc sweepCache [(''b'', 100), (''a'', 101)]) = 1 \<and>
   totalEvicted (gc sweepCache [(''b'', 100), (''a'', 101)]) = 1 \<and>
   evictionCalls (gc sweepCache [(''b'', 100), (''a'', 101)]) = [(''a'', False)]"
proof -
  have h1: "0 < expiry sweepCache" by (simp add: sweepCache_fields)
  have h2: "distinct (map fst [(''b'', 100 :: time), (''a'', 101)])" by simp
  have h3: "fst ` set [(''b'', 100 :: time), (''a'', 101)] = dom (entries sweepCache)"
    by (auto simp: sweepCache_fields)
  have a: "''a'' \<in> dom (entries sweepCache)" and b: "''b'' \<in> dom (entries sweepCache)"
    by (simp_all add: sweepCache_fields)
  note th = gc_sweep [OF h1 h2 h3]
  from th [THEN conjunct1, THEN bspec, OF a]
  have "entries (gc sweepCache [(''b'', 100), (''a'', 101)]) ''a'' = None"
    by (auto simp: sweepCache_fields sweep_times)
  moreover from th [THEN conjunct1, THEN bspec, OF b]
  have "entries (gc sweepCache [(''b'', 100), (''a'', 101)]) ''b'' = Some \<lparr>buf = [3], lastAccessed = 90\<rparr>"
    by (auto simp: sweepCache_fields sweep_times)
  moreover from th have "currentSize (gc sweepCache [(''b'', 100), (''a'', 101)]) = 1"
    by (simp add: sweep_evicted entrySize_def sweepCache_fields)
  moreover from th have "totalEvicted (gc sweepCache [(''b'', 100), (''a'', 101)]) = 1"
    by (simp add: sweep_evicted sweepCache_fields)
  moreover from th have "evictionCalls (gc sweepCache [(''b'', 100), (''a'', 101)]) = [(''a'', False)]"
    by (simp add: sweep_evicted sweepCache_fields)
  ultimately show ?thesis using h1 h2 h3 by blast
qed

subsection \<open>C10: delete of an absent key\<close>

text \<open>
  C10: when no entry is stored under \<open>k\<close>, \<open>delete k\<close> returns the cache as it
  was, and \<open>Delete k\<close> leaves the entries, \<open>currentSize\<close> and \<open>totalEvicted\<close>
  unchanged.
\<close>

theorem delete_absent:
  "entries c k = None \<Longrightarrow>
     delete c k = c \<and>
     entries (Delete c k) = entries c \<and>
     currentSize (Delete c k) = currentSize c \<and>
     totalEvicted (Delete c k) = totalEvicted c"
  by (simp add: delete_def Delete_def Lock_def Unlock_def call_OnEviction_def Let_def)

theorem delete_absent_witness:
  "entries notifyCache ''k'' = None \<and> delete notifyCache ''k'' = notifyCache \<and>
   totalEvicted (Delete notifyCache ''k'') = totalEvicted notifyCache"
proof -
  have h: "entries notifyCache ''k'' = None" by (simp add: notifyCache_eq)
  from delete_absent [OF h] h show ?thesis by simp
qed

end

